theory Spec2Isabelle
  imports Main
begin

section \<open>move-nested-files (mnf): a shallow embedding of src/mnf.c\<close>

text \<open>
  C strings are modelled as \<^typ>\<open>string\<close> (the characters before the terminating NUL),
  a possibly-NULL \<^verbatim>\<open>const char *\<close> result as \<^typ>\<open>string option\<close>, \<^verbatim>\<open>off_t\<close> and
  \<^verbatim>\<open>time_t\<close> as \<^typ>\<open>int\<close> (only compared, never added), and a counted array
  \<^verbatim>\<open>(char **v, size_t n)\<close> as a list whose length is the count.
\<close>

subsection \<open>Small utilities\<close>

definition PATH_MAX :: nat where
  "PATH_MAX = 4096"

text \<open>\<^verbatim>\<open>die\<close> prints a message and calls \<^verbatim>\<open>exit(EXIT_FAILURE)\<close>; the model returns the
  message as the left summand of a result.\<close>

datatype fatal = Die string

definition path_join :: "nat \<Rightarrow> string \<Rightarrow> string \<Rightarrow> fatal + string" where
  "path_join dstsz a b =
     (let alen = length a; blen = length b; needed = alen + 1 + blen + 1
      in if needed > dstsz then Inl (Die ''Path too long'')
         else Inr (a @ ''/'' @ b))"

definition str_copy_checked :: "nat \<Rightarrow> string \<Rightarrow> fatal + string" where
  "str_copy_checked dstsz src =
     (let slen = length src + 1
      in if slen > dstsz then Inl (Die ''Path too long'') else Inr src)"

text \<open>\<^verbatim>\<open>strrchr(s, c)\<close>: the index of the last occurrence of \<open>c\<close>, \<open>None\<close> for NULL.\<close>

fun strrchr :: "string \<Rightarrow> char \<Rightarrow> nat option" where
  "strrchr [] c = None"
| "strrchr (x # xs) c =
     (case strrchr xs c of
        Some i \<Rightarrow> Some (Suc i)
      | None \<Rightarrow> if x = c then Some 0 else None)"


subsection \<open>Options\<close>

datatype mode_tg = MODE_RENAME | MODE_SKIP | MODE_OVERWRITE

record options_t =
  src :: string
  dst :: string
  threads :: int
  mode :: mode_tg
  min_depth :: int
  max_depth :: int
  dry_run :: bool
  progress :: bool
  preserve_times :: bool
  include_symlinks :: bool
  prune_empty_dirs :: bool
  min_size :: int
  has_min_size :: bool
  max_size :: int
  has_max_size :: bool
  newer_than :: int
  has_newer :: bool
  older_than :: int
  has_older :: bool
  includes_v :: "string list"
  excludes :: "string list"
  allow_ext :: "string list"
  deny_ext :: "string list"

text \<open>The fields of \<^verbatim>\<open>struct stat\<close> the program reads.\<close>

datatype file_kind = S_IFREG | S_IFLNK | S_IFDIR | S_IFOTHER

record stat_t =
  st_kind :: file_kind
  st_perm :: nat
  st_size :: int
  st_atime :: int
  st_mtime :: int

subsection \<open>Filters\<close>

definition ext_of :: "string \<Rightarrow> string option" where
  "ext_of name =
     (case strrchr name CHR ''.'' of
        None \<Rightarrow> None
      | Some dot \<Rightarrow> if dot = 0 then None else Some (drop (dot + 1) name))"

text \<open>The ASCII case folding written inline in \<^verbatim>\<open>list_contains_ci\<close>:
  \<^verbatim>\<open>if (c>='A'&&c<='Z') c = (char)(c-'A'+'a')\<close>.\<close>

definition fold_upper :: "char \<Rightarrow> char" where
  "fold_upper c =
     (if (65::nat) \<le> of_char c \<and> (of_char c :: nat) \<le> 90
      then char_of ((of_char c :: nat) - 65 + 97) else c)"

text \<open>The inner loop \<^verbatim>\<open>for (j=0; j<la; j++)\<close>: \<open>True\<close> when \<^verbatim>\<open>same\<close> is still set at its end.\<close>

function same_loop :: "string \<Rightarrow> string \<Rightarrow> nat \<Rightarrow> nat \<Rightarrow> bool" where
  "same_loop a needle la j =
     (if j < la
      then (if fold_upper (a ! j) \<noteq> fold_upper (needle ! j) then False
            else same_loop a needle la (j + 1))
      else True)"
  by pat_completeness auto
termination
  by (relation "measure (\<lambda>(a, needle, la, j). la - j)") auto

declare same_loop.simps [simp del]

fun contains_loop :: "string list \<Rightarrow> string \<Rightarrow> bool" where
  "contains_loop [] needle = False"
| "contains_loop (a # rest) needle =
     (let la = length a; ln = length needle
      in if la \<noteq> ln then contains_loop rest needle
         else if same_loop a needle la 0 then True
         else contains_loop rest needle)"

definition list_contains_ci :: "string list \<Rightarrow> string option \<Rightarrow> bool" where
  "list_contains_ci list needle =
     (case needle of None \<Rightarrow> False | Some nd \<Rightarrow> contains_loop list nd)"

text \<open>\<^verbatim>\<open>fnmatch(glob, rel, FNM_PATHNAME | FNM_PERIOD | FNM_CASEFOLD) == 0\<close> is a libc
  function: the model takes it as the parameter \<open>fnm glob rel\<close>.\<close>

fun glob_loop :: "(string \<Rightarrow> string \<Rightarrow> bool) \<Rightarrow> string \<Rightarrow> string list \<Rightarrow> bool" where
  "glob_loop fnm rel [] = False"
| "glob_loop fnm rel (g # gs) = (if fnm g rel then True else glob_loop fnm rel gs)"

definition match_any_glob :: "(string \<Rightarrow> string \<Rightarrow> bool) \<Rightarrow> string \<Rightarrow> string list \<Rightarrow> bool" where
  "match_any_glob fnm rel globs = (if globs = [] then True else glob_loop fnm rel globs)"

definition match_any_exclude :: "(string \<Rightarrow> string \<Rightarrow> bool) \<Rightarrow> string \<Rightarrow> string list \<Rightarrow> bool" where
  "match_any_exclude fnm rel globs = (if globs = [] then False else glob_loop fnm rel globs)"

definition file_passes_filters ::
  "(string \<Rightarrow> string \<Rightarrow> bool) \<Rightarrow> 'a options_t_scheme \<Rightarrow> string \<Rightarrow> 'b stat_t_scheme \<Rightarrow> string \<Rightarrow> bool" where
  "file_passes_filters fnm o' rel st name =
     (if length (includes_v o') > 0 \<and> \<not> match_any_glob fnm rel (includes_v o') then False
      else if match_any_exclude fnm rel (excludes o') then False
      else let ext = ext_of name in
        if length (allow_ext o') > 0 \<and> (ext = None \<or> \<not> list_contains_ci (allow_ext o') ext)
        then False
        else if ext \<noteq> None \<and> length (deny_ext o') > 0 \<and> list_contains_ci (deny_ext o') ext
        then False
        else if has_min_size o' \<and> st_size st < min_size o' then False
        else if has_max_size o' \<and> st_size st > max_size o' then False
        else if has_newer o' \<and> st_mtime st < newer_than o' then False
        else if has_older o' \<and> st_mtime st > older_than o' then False
        else True)"

subsection \<open>Facts about the filter helpers\<close>

lemma strrchr_None_iff: "strrchr s c = None \<longleftrightarrow> c \<notin> set s"
  by (induction s) (auto split: option.splits)

lemma strrchr_Some_bound: "strrchr s c = Some i \<Longrightarrow> i < length s \<and> s ! i = c \<and> c \<notin> set (drop (Suc i) s)"
proof (induction s arbitrary: i)
  case Nil
  then show ?case by simp
next
  case (Cons x xs)
  show ?case
  proof (cases "strrchr xs c")
    case None
    with Cons.prems have "i = 0" "x = c"
      by (auto split: if_splits)
    moreover from None have "c \<notin> set xs"
      by (simp add: strrchr_None_iff)
    ultimately show ?thesis by simp
  next
    case (Some k)
    with Cons.prems have "i = Suc k" by simp
    with Cons.IH [OF Some] show ?thesis by simp
  qed
qed




lemma strrchr_Some_mem: "strrchr s c = Some i \<Longrightarrow> c \<in> set s"
  using strrchr_None_iff [of s c] by auto

lemma ext_of_None_iff:
  "ext_of name = None \<longleftrightarrow> CHR ''.'' \<notin> set (tl name)"
proof (cases name)
  case Nil
  then show ?thesis by (simp add: ext_of_def)
next
  case (Cons x xs)
  show ?thesis
  proof (cases "strrchr xs CHR ''.''")
    case None
    then have "CHR ''.'' \<notin> set xs"
      by (simp add: strrchr_None_iff)
    with Cons None show ?thesis
      by (simp add: ext_of_def)
  next
    case (Some k)
    then have "CHR ''.'' \<in> set xs"
      by (rule strrchr_Some_mem)
    with Cons Some show ?thesis
      by (simp add: ext_of_def)
  qed
qed

lemma strrchr_append_dot:
  "c \<notin> set e \<Longrightarrow> strrchr (stem @ c # e) c = Some (length stem)"
  by (induction stem) (simp_all add: strrchr_None_iff [THEN iffD2])

lemma ext_of_Some_iff:
  "ext_of name = Some e \<longleftrightarrow>
     (\<exists>stem. name = stem @ ''.'' @ e \<and> stem \<noteq> [] \<and> CHR ''.'' \<notin> set e)"
proof
  assume "ext_of name = Some e"
  then obtain i where i: "strrchr name CHR ''.'' = Some i" "i \<noteq> 0" "e = drop (Suc i) name"
    by (auto simp: ext_of_def split: option.splits if_splits)
  from strrchr_Some_bound [OF i(1)]
  have b: "i < length name" "name ! i = CHR ''.''" "CHR ''.'' \<notin> set (drop (Suc i) name)"
    by simp_all
  from b(1) have "drop i name = name ! i # drop (Suc i) name"
    by (metis Cons_nth_drop_Suc)
  with b(2) i(3) have "drop i name = ''.'' @ e" by simp
  then have "name = take i name @ ''.'' @ e"
    by (metis append_take_drop_id)
  moreover from b(1) i(2) have "take i name \<noteq> []" by auto
  ultimately show "\<exists>stem. name = stem @ ''.'' @ e \<and> stem \<noteq> [] \<and> CHR ''.'' \<notin> set e"
    using b(3) i(3) by blast
next
  assume "\<exists>stem. name = stem @ ''.'' @ e \<and> stem \<noteq> [] \<and> CHR ''.'' \<notin> set e"
  then obtain stem where s: "name = stem @ ''.'' @ e" "stem \<noteq> []" "CHR ''.'' \<notin> set e"
    by blast
  from s(3) have "strrchr (stem @ CHR ''.'' # e) CHR ''.'' = Some (length stem)"
    by (rule strrchr_append_dot)
  with s show "ext_of name = Some e"
    by (simp add: ext_of_def)
qed

lemma if_False_conj: "(if c then False else r) \<longleftrightarrow> \<not> c \<and> r"
  by simp








subsection \<open>The Filter Engine\<close>


text \<open>A configuration and a stat record for the concrete instances below.\<close>

definition example_options :: options_t where
  "example_options =
     \<lparr> src = ''/data/in'', dst = ''/data/out'', threads = 1, mode = MODE_RENAME,
       min_depth = 1, max_depth = - 1, dry_run = False, progress = False,
       preserve_times = True, include_symlinks = False, prune_empty_dirs = False,
       min_size = 10, has_min_size = True, max_size = 0, has_max_size = False,
       newer_than = 0, has_newer = False, older_than = 500, has_older = True,
       includes_v = [], excludes = [''tmp/x.jpg''], allow_ext = [''jpg'', ''png''],
       deny_ext = [''part''] \<rparr>"

definition example_stat :: stat_t where
  "example_stat = \<lparr> st_kind = S_IFREG, st_perm = 420, st_size = 100, st_atime = 7, st_mtime = 500 \<rparr>"




text \<open>
  Claim C10. A name whose only dot is its first character has no extension for the Filter
  Engine: with an allow list configured the file is rejected whatever else is configured,
  and the deny list never matches it, so that the verdict does not depend on the deny list.
\<close>

theorem leading_dot_has_no_extension:
  assumes "name = CHR ''.'' # rest" and "CHR ''.'' \<notin> set rest"
  shows "ext_of name = None \<and>
    (allow_ext o' \<noteq> [] \<longrightarrow> \<not> file_passes_filters fnm o' rel st name) \<and>
    \<not> list_contains_ci (deny_ext o') (ext_of name) \<and>
    (\<forall>d. file_passes_filters fnm (o'\<lparr>deny_ext := d\<rparr>) rel st name =
         file_passes_filters fnm o' rel st name)"
proof -
  from assms have none: "ext_of name = None"
    by (simp add: ext_of_None_iff)
  have deny: "\<And>l. \<not> list_contains_ci l (ext_of name)"
    by (simp add: none list_contains_ci_def)
  have "allow_ext o' \<noteq> [] \<longrightarrow> \<not> file_passes_filters fnm o' rel st name"
    unfolding file_passes_filters_def Let_def if_False_conj
    by (simp add: none)
  moreover have "\<forall>d. file_passes_filters fnm (o'\<lparr>deny_ext := d\<rparr>) rel st name =
         file_passes_filters fnm o' rel st name"
    unfolding file_passes_filters_def Let_def if_False_conj
    by (simp add: none)
  ultimately show ?thesis using none deny by blast
qed

theorem leading_dot_has_no_extension_witness:
  "ext_of ''.bashrc'' = None \<and>
   allow_ext example_options \<noteq> [] \<and>
   \<not> file_passes_filters (\<lambda>g r. g = r) example_options ''home/.bashrc'' example_stat ''.bashrc'' \<and>
   \<not> list_contains_ci (deny_ext example_options) (ext_of ''.bashrc'')"
proof -
  have h1: "''.bashrc'' = CHR ''.'' # ''bashrc''" by simp
  have h2: "CHR ''.'' \<notin> set ''bashrc''" by simp
  have a: "allow_ext example_options \<noteq> []"
    by (simp add: example_options_def)
  from leading_dot_has_no_extension [OF h1 h2, of example_options "\<lambda>g r. g = r" "''home/.bashrc''" example_stat] a
  show ?thesis by blast
qed

subsection \<open>Unique naming\<close>

text \<open>\<^verbatim>\<open>snprintf(num, sizeof(num), "%d", n)\<close>: the decimal digits of \<open>n\<close>, with a minus sign
  for a negative number.\<close>

definition digit_char :: "nat \<Rightarrow> char" where
  "digit_char d = char_of (48 + d)"

function dec_digits :: "nat \<Rightarrow> string" where
  "dec_digits n = (if n < 10 then [digit_char n] else dec_digits (n div 10) @ [digit_char (n mod 10)])"
  by pat_completeness auto
termination
  by (relation "measure (\<lambda>n. n)") auto

declare dec_digits.simps [simp del]

definition fmt_d :: "int \<Rightarrow> string" where
  "fmt_d n = (if n < 0 then CHR ''-'' # dec_digits (nat (- n)) else dec_digits (nat n))"

definition INT_MAX :: int where
  "INT_MAX = 2147483647"

text \<open>\<^verbatim>\<open>split_name\<close> writes the two parts with \<^verbatim>\<open>snprintf\<close> into buffers of \<open>bsz\<close> and
  \<open>extsz\<close> bytes, which keeps at most \<open>bsz - 1\<close> and \<open>extsz - 1\<close> characters. The
  extension keeps its dot.\<close>

definition split_name :: "nat \<Rightarrow> nat \<Rightarrow> string \<Rightarrow> string \<times> string" where
  "split_name bsz extsz name =
     (let dot = strrchr name CHR ''.''
      in if (case name of [] \<Rightarrow> False | c # _ \<Rightarrow> c = CHR ''.'') \<and> (dot = None \<or> dot = Some 0)
         then (take (bsz - 1) name, [])
         else (case dot of
                 None \<Rightarrow> (take (bsz - 1) name, [])
               | Some blen \<Rightarrow>
                   if blen \<noteq> 0
                   then (take (bsz - 1) (take blen name), take (extsz - 1) (drop blen name))
                   else (take (bsz - 1) name, [])))"

text \<open>
  The loop of \<^verbatim>\<open>unique_path\<close>. \<open>access_ok p\<close> stands for \<^verbatim>\<open>access(p, F_OK) == 0\<close>, \<open>out\<close>
  is the candidate to test and \<open>n\<close> the next suffix. \<^verbatim>\<open>n\<close> is a C \<^verbatim>\<open>int\<close>: \<^verbatim>\<open>n++\<close> at
  \<^verbatim>\<open>INT_MAX\<close> is undefined behaviour, where the model stops with \<open>Signed_overflow\<close>.
\<close>

datatype abort = Fatal fatal | Signed_overflow

function unique_loop ::
  "(string \<Rightarrow> bool) \<Rightarrow> nat \<Rightarrow> string \<Rightarrow> string \<Rightarrow> string \<Rightarrow> string \<Rightarrow> int \<Rightarrow> abort + string" where
  "unique_loop access_ok outsz dest_dir base ext out n =
     (if access_ok out
      then (let num = fmt_d n; numlen = length num
            in if numlen \<ge> 32 then Inl (Fatal (Die ''Path suffix too long (unique_path)''))
               else (let destlen = length dest_dir; baselen = length base; extlen = length ext;
                         needed = destlen + 1 + baselen + 1 + numlen + extlen + 1
                     in if needed > outsz then Inl (Fatal (Die ''Path too long (unique_path)''))
                        else (let out' = dest_dir @ ''/'' @ base @ ''_'' @ num @ ext
                              in if n \<ge> INT_MAX then Inl Signed_overflow
                                 else unique_loop access_ok outsz dest_dir base ext out' (n + 1))))
      else Inr out)"
  by pat_completeness auto
termination
  by (relation "measure (\<lambda>(access_ok, outsz, dest_dir, base, ext, out, n). nat (INT_MAX - n))") auto

declare unique_loop.simps [simp del]

definition unique_path :: "(string \<Rightarrow> bool) \<Rightarrow> nat \<Rightarrow> string \<Rightarrow> string \<Rightarrow> abort + string" where
  "unique_path access_ok outsz dest_dir name =
     (case split_name PATH_MAX PATH_MAX name of
        (base, ext) \<Rightarrow>
          (case path_join outsz dest_dir name of
             Inl e \<Rightarrow> Inl (Fatal e)
           | Inr out \<Rightarrow> unique_loop access_ok outsz dest_dir base ext out 1))"

text \<open>The split as the specification words it: the extension is the last dot and
  everything after it, provided that dot is not the first character of the name; the stem
  is what stands before it.\<close>

definition stem_ext_spec :: "string \<Rightarrow> string \<times> string" where
  "stem_ext_spec name =
     (if CHR ''.'' \<in> set (tl name)
      then (let e = rev (takeWhile (\<lambda>c. c \<noteq> CHR ''.'') (rev name))
            in (take (length name - Suc (length e)) name, CHR ''.'' # e))
      else (name, []))"

text \<open>The candidate \<^verbatim>\<open>destination_dir/stem_N.ext\<close> of the specification.\<close>

definition candidate :: "string \<Rightarrow> string \<times> string \<Rightarrow> int \<Rightarrow> string" where
  "candidate dest_dir se k = dest_dir @ ''/'' @ fst se @ ''_'' @ fmt_d k @ snd se"

lemma length_dec_digits:
  "length (dec_digits n) = (if n < 10 then 1 else Suc (length (dec_digits (n div 10))))"
  by (subst dec_digits.simps) simp

lemma length_dec_digits_mono: "m \<le> n \<Longrightarrow> length (dec_digits m) \<le> length (dec_digits n)"
proof (induction n arbitrary: m rule: dec_digits.induct)
  case (1 n)
  show ?case
  proof (cases "n < 10")
    case True
    with "1.prems" show ?thesis
      by (simp add: length_dec_digits [of m] length_dec_digits [of n])
  next
    case False
    show ?thesis
    proof (cases "m < 10")
      case True
      with False show ?thesis
        by (simp add: length_dec_digits [of m] length_dec_digits [of n])
    next
      case mbig: False
      from "1.prems" have "m div 10 \<le> n div 10"
        by (rule div_le_mono)
      with "1.IH" False have "length (dec_digits (m div 10)) \<le> length (dec_digits (n div 10))"
        by simp
      with False mbig show ?thesis
        by (simp add: length_dec_digits [of m] length_dec_digits [of n])
    qed
  qed
qed

lemma length_dec_digits_bound: "n < 10 ^ Suc k \<Longrightarrow> length (dec_digits n) \<le> Suc k"
proof (induction k arbitrary: n)
  case 0
  then show ?case by (simp add: length_dec_digits [of n])
next
  case (Suc k)
  show ?case
  proof (cases "n < 10")
    case True
    then show ?thesis by (simp add: length_dec_digits [of n])
  next
    case False
    from Suc.prems have "n div 10 < 10 ^ Suc k"
      by (simp add: less_mult_imp_div_less mult.commute)
    then have "length (dec_digits (n div 10)) \<le> Suc k"
      by (rule Suc.IH)
    with False show ?thesis by (simp add: length_dec_digits [of n])
  qed
qed

lemma length_fmt_d_less_32: "0 \<le> n \<Longrightarrow> n \<le> INT_MAX \<Longrightarrow> length (fmt_d n) < 32"
proof -
  assume n: "0 \<le> n" "n \<le> INT_MAX"
  then have "nat n < 10 ^ Suc 9"
    by (simp add: INT_MAX_def)
  then have "length (dec_digits (nat n)) \<le> Suc 9"
    by (rule length_dec_digits_bound)
  with n show ?thesis by (simp add: fmt_d_def)
qed

lemma length_fmt_d_mono: "0 \<le> m \<Longrightarrow> m \<le> n \<Longrightarrow> length (fmt_d m) \<le> length (fmt_d n)"
  by (simp add: fmt_d_def length_dec_digits_mono)

lemma strrchr_suffix:
  assumes "strrchr s c = Some i"
  shows "rev (takeWhile (\<lambda>x. x \<noteq> c) (rev s)) = drop (Suc i) s"
proof -
  from strrchr_Some_bound [OF assms]
  have b: "i < length s" "s ! i = c" "c \<notin> set (drop (Suc i) s)"
    by simp_all
  from b(1) have "drop i s = s ! i # drop (Suc i) s"
    by (metis Cons_nth_drop_Suc)
  with b(2) have "s = take i s @ c # drop (Suc i) s"
    by (metis append_take_drop_id)
  then have "rev s = rev (drop (Suc i) s) @ c # rev (take i s)"
    by (metis rev.simps(2) rev_append append.assoc append_Cons append_Nil)
  moreover have "takeWhile (\<lambda>x. x \<noteq> c) (rev (drop (Suc i) s) @ c # rev (take i s)) = rev (drop (Suc i) s)"
    using b(3) by (auto simp: takeWhile_tail)
  ultimately show ?thesis by simp
qed

lemma dot_in_tl_iff:
  "CHR ''.'' \<in> set (tl name) \<longleftrightarrow> (\<exists>i. strrchr name CHR ''.'' = Some i \<and> i \<noteq> 0)"
  using ext_of_None_iff [of name]
  by (auto simp: ext_of_def split: option.splits if_splits)

lemma split_name_spec:
  assumes "length name < bsz" and "length name < extsz"
  shows "split_name bsz extsz name = stem_ext_spec name"
proof (cases "CHR ''.'' \<in> set (tl name)")
  case False
  then have "strrchr name CHR ''.'' = None \<or> strrchr name CHR ''.'' = Some 0"
    by (cases "strrchr name CHR ''.''") (auto simp: dot_in_tl_iff)
  with False assms show ?thesis
    by (auto simp: split_name_def stem_ext_spec_def)
next
  case True
  then obtain i where i: "strrchr name CHR ''.'' = Some i" "i \<noteq> 0"
    by (auto simp: dot_in_tl_iff)
  from strrchr_Some_bound [OF i(1)] have b: "i < length name" "name ! i = CHR ''.''"
    by simp_all
  from b have d: "drop i name = CHR ''.'' # drop (Suc i) name"
    by (metis Cons_nth_drop_Suc)
  have e: "rev (takeWhile (\<lambda>c. c \<noteq> CHR ''.'') (rev name)) = drop (Suc i) name"
    using i(1) by (rule strrchr_suffix)
  from b(1) have l: "length name - Suc (length name - Suc i) = i"
    by simp
  from assms b(1) have t: "take (bsz - 1) (take i name) = take i name"
    "take (extsz - 1) (drop i name) = drop i name"
    by simp_all
  have "split_name bsz extsz name = (take i name, drop i name)"
    using i t by (simp add: split_name_def)
  moreover have "stem_ext_spec name = (take i name, CHR ''.'' # drop (Suc i) name)"
    using True by (simp add: stem_ext_spec_def e l)
  ultimately show ?thesis using d by simp
qed

lemma stem_ext_spec_parts:
  assumes "stem_ext_spec name = (stem, ext)"
  shows "name = stem @ ext \<and>
     (if CHR ''.'' \<in> set (tl name)
      then stem \<noteq> [] \<and> (\<exists>e. ext = CHR ''.'' # e \<and> CHR ''.'' \<notin> set e)
      else ext = [])"
proof (cases "CHR ''.'' \<in> set (tl name)")
  case False
  with assms show ?thesis by (simp add: stem_ext_spec_def)
next
  case True
  then obtain i where i: "strrchr name CHR ''.'' = Some i" "i \<noteq> 0"
    by (auto simp: dot_in_tl_iff)
  from strrchr_Some_bound [OF i(1)]
  have b: "i < length name" "name ! i = CHR ''.''" "CHR ''.'' \<notin> set (drop (Suc i) name)"
    by simp_all
  from b have d: "drop i name = CHR ''.'' # drop (Suc i) name"
    by (metis Cons_nth_drop_Suc)
  have e: "rev (takeWhile (\<lambda>c. c \<noteq> CHR ''.'') (rev name)) = drop (Suc i) name"
    using i(1) by (rule strrchr_suffix)
  from b(1) have l: "length name - Suc (length name - Suc i) = i"
    by simp
  from assms True have se: "stem = take i name" "ext = CHR ''.'' # drop (Suc i) name"
    by (simp_all add: stem_ext_spec_def e l)
  have "name = take i name @ drop i name" by simp
  with d se have "name = stem @ ext" by simp
  moreover from se b(1) i(2) have "stem \<noteq> []" by auto
  ultimately show ?thesis using True se b(3) by simp
qed

lemma unique_loop_stop:
  "\<not> access_ok out \<Longrightarrow> unique_loop access_ok outsz dest_dir base ext out n = Inr out"
  by (subst unique_loop.simps) simp

lemma unique_loop_step:
  assumes "access_ok out" and "0 \<le> n" and "n < INT_MAX"
    and "length (candidate dest_dir (base, ext) n) + 1 \<le> outsz"
  shows "unique_loop access_ok outsz dest_dir base ext out n =
         unique_loop access_ok outsz dest_dir base ext (candidate dest_dir (base, ext) n) (n + 1)"
proof -
  from assms(2,3) have "length (fmt_d n) < 32"
    by (simp add: length_fmt_d_less_32)
  with assms(1,3,4) show ?thesis
    by (subst unique_loop.simps) (simp add: candidate_def Let_def)
qed

lemma unique_loop_least:
  assumes "1 \<le> n" and "n \<le> N" and "N < INT_MAX" and "access_ok out"
    and "\<forall>k. n \<le> k \<and> k < N \<longrightarrow> access_ok (candidate dest_dir (base, ext) k)"
    and "\<not> access_ok (candidate dest_dir (base, ext) N)"
    and "length (candidate dest_dir (base, ext) N) + 1 \<le> outsz"
  shows "unique_loop access_ok outsz dest_dir base ext out n = Inr (candidate dest_dir (base, ext) N)"
  using assms
proof (induction "nat (N - n)" arbitrary: n out)
  case 0
  then have "n = N" by simp
  with "0.prems" have "unique_loop access_ok outsz dest_dir base ext out n =
      unique_loop access_ok outsz dest_dir base ext (candidate dest_dir (base, ext) N) (N + 1)"
    by (simp add: unique_loop_step)
  with "0.prems" show ?case
    by (simp add: unique_loop_stop)
next
  case (Suc d)
  then have lt: "n < N" by simp
  from Suc.prems lt have "length (fmt_d n) \<le> length (fmt_d N)"
    by (simp add: length_fmt_d_mono)
  with Suc.prems have fit: "length (candidate dest_dir (base, ext) n) + 1 \<le> outsz"
    by (simp add: candidate_def)
  from Suc.prems lt fit have step: "unique_loop access_ok outsz dest_dir base ext out n =
      unique_loop access_ok outsz dest_dir base ext (candidate dest_dir (base, ext) n) (n + 1)"
    by (simp add: unique_loop_step)
  from Suc.prems lt have ex: "access_ok (candidate dest_dir (base, ext) n)"
    by simp
  have "unique_loop access_ok outsz dest_dir base ext (candidate dest_dir (base, ext) n) (n + 1) =
      Inr (candidate dest_dir (base, ext) N)"
  proof (rule Suc.hyps(1))
    from Suc.hyps(2) show "d = nat (N - (n + 1))" by simp
    from Suc.prems show "1 \<le> n + 1" by simp
    from lt show "n + 1 \<le> N" by simp
    from Suc.prems show "N < INT_MAX" by simp
    from ex show "access_ok (candidate dest_dir (base, ext) n)" .
    from Suc.prems show "\<forall>k. n + 1 \<le> k \<and> k < N \<longrightarrow> access_ok (candidate dest_dir (base, ext) k)"
      by simp
    from Suc.prems show "\<not> access_ok (candidate dest_dir (base, ext) N)" by simp
    from Suc.prems show "length (candidate dest_dir (base, ext) N) + 1 \<le> outsz" by simp
  qed
  with step show ?case by simp
qed

text \<open>
  Claim C1 (amended). Let the output buffer hold at most \<open>PATH_MAX\<close> bytes. If
  \<^verbatim>\<open>destination_dir/desired_name\<close> with its terminator does not fit the buffer, the
  allocator aborts the process ("Path too long"). Otherwise it splits the name at the last
  dot (a name whose only dot is its first character has no extension, the dot staying in the
  stem), returns \<^verbatim>\<open>destination_dir/desired_name\<close> if no entry exists there, and otherwise
  returns \<^verbatim>\<open>destination_dir/stem_N.ext\<close> for the smallest \<open>N \<ge> 1\<close> at which no entry exists,
  provided that candidate fits the buffer and \<open>N\<close> is below \<open>INT_MAX\<close>.
\<close>

theorem unique_path_allocates:
  assumes "outsz \<le> PATH_MAX"
  shows
    "(length dest_dir + 1 + length name + 1 > outsz \<longrightarrow>
        unique_path access_ok outsz dest_dir name = Inl (Fatal (Die ''Path too long''))) \<and>
     (length dest_dir + 1 + length name + 1 \<le> outsz \<longrightarrow>
        split_name PATH_MAX PATH_MAX name = stem_ext_spec name \<and>
        (\<not> access_ok (dest_dir @ ''/'' @ name) \<longrightarrow>
           unique_path access_ok outsz dest_dir name = Inr (dest_dir @ ''/'' @ name)) \<and>
        (\<forall>N. access_ok (dest_dir @ ''/'' @ name) \<and> 1 \<le> N \<and> N < INT_MAX \<and>
             (\<forall>k. 1 \<le> k \<and> k < N \<longrightarrow> access_ok (candidate dest_dir (stem_ext_spec name) k)) \<and>
             \<not> access_ok (candidate dest_dir (stem_ext_spec name) N) \<and>
             length (candidate dest_dir (stem_ext_spec name) N) + 1 \<le> outsz \<longrightarrow>
           unique_path access_ok outsz dest_dir name =
             Inr (candidate dest_dir (stem_ext_spec name) N)))"
proof (intro conjI impI allI)
  assume "length dest_dir + 1 + length name + 1 > outsz"
  then show "unique_path access_ok outsz dest_dir name = Inl (Fatal (Die ''Path too long''))"
    by (simp add: unique_path_def path_join_def split: prod.splits)
next
  assume fit: "length dest_dir + 1 + length name + 1 \<le> outsz"
  with assms have "length name < PATH_MAX" by simp
  then show "split_name PATH_MAX PATH_MAX name = stem_ext_spec name"
    by (simp add: split_name_spec)
next
  assume fit: "length dest_dir + 1 + length name + 1 \<le> outsz"
    and free: "\<not> access_ok (dest_dir @ ''/'' @ name)"
  then show "unique_path access_ok outsz dest_dir name = Inr (dest_dir @ ''/'' @ name)"
    by (simp add: unique_path_def path_join_def unique_loop_stop split: prod.splits)
next
  fix N
  assume fit: "length dest_dir + 1 + length name + 1 \<le> outsz"
    and N: "access_ok (dest_dir @ ''/'' @ name) \<and> 1 \<le> N \<and> N < INT_MAX \<and>
             (\<forall>k. 1 \<le> k \<and> k < N \<longrightarrow> access_ok (candidate dest_dir (stem_ext_spec name) k)) \<and>
             \<not> access_ok (candidate dest_dir (stem_ext_spec name) N) \<and>
             length (candidate dest_dir (stem_ext_spec name) N) + 1 \<le> outsz"
  from fit assms have "length name < PATH_MAX" by simp
  then have sp: "split_name PATH_MAX PATH_MAX name = stem_ext_spec name"
    by (simp add: split_name_spec)
  obtain base ext where be: "stem_ext_spec name = (base, ext)"
    by (cases "stem_ext_spec name")
  have "unique_loop access_ok outsz dest_dir base ext (dest_dir @ ''/'' @ name) 1 =
      Inr (candidate dest_dir (base, ext) N)"
    using N unfolding be by (intro unique_loop_least) simp_all
  with fit sp be show "unique_path access_ok outsz dest_dir name =
      Inr (candidate dest_dir (stem_ext_spec name) N)"
    by (simp add: unique_path_def path_join_def)
qed

text \<open>A destination that already holds \<^verbatim>\<open>a.txt\<close> and \<^verbatim>\<open>a_1.txt\<close>.\<close>

definition taken_names :: "string \<Rightarrow> bool" where
  "taken_names p = (p = ''d/a.txt'' \<or> p = ''d/a_1.txt'')"

lemma fmt_d_examples: "fmt_d 1 = ''1''" "fmt_d 2 = ''2''"
  by code_simp+

lemma stem_ext_spec_a_txt: "stem_ext_spec ''a.txt'' = (''a'', ''.txt'')"
  by (simp add: stem_ext_spec_def)

theorem unique_path_allocates_witness:
  "unique_path taken_names PATH_MAX ''d'' ''a.txt'' = Inr ''d/a_2.txt'' \<and>
   taken_names ''d/a.txt'' \<and> taken_names ''d/a_1.txt'' \<and> \<not> taken_names ''d/a_2.txt'' \<and>
   split_name PATH_MAX PATH_MAX ''a.txt'' = (''a'', ''.txt'')"
proof -
  have c: "\<And>k. candidate ''d'' (''a'', ''.txt'') k = ''d/a_'' @ fmt_d k @ ''.txt''"
    by (simp add: candidate_def)
  have k: "\<forall>k::int. 1 \<le> k \<and> k < 2 \<longrightarrow> taken_names (candidate ''d'' (stem_ext_spec ''a.txt'') k)"
  proof (intro allI impI)
    fix k :: int
    assume "1 \<le> k \<and> k < 2"
    then have "k = 1" by simp
    then show "taken_names (candidate ''d'' (stem_ext_spec ''a.txt'') k)"
      by (simp add: c stem_ext_spec_a_txt fmt_d_examples taken_names_def)
  qed
  have t: "taken_names ''d/a.txt''" "taken_names ''d/a_1.txt''" "\<not> taken_names ''d/a_2.txt''"
    by (simp_all add: taken_names_def)
  have n: "\<not> taken_names (candidate ''d'' (stem_ext_spec ''a.txt'') 2)"
    by (simp add: c stem_ext_spec_a_txt fmt_d_examples taken_names_def)
  have l: "length (candidate ''d'' (stem_ext_spec ''a.txt'') 2) + 1 \<le> PATH_MAX"
    by (simp add: c stem_ext_spec_a_txt fmt_d_examples PATH_MAX_def)
  have f: "length ''d'' + 1 + length ''a.txt'' + 1 \<le> PATH_MAX"
    by (simp add: PATH_MAX_def)
  from unique_path_allocates [OF order_refl, of "''d''" "''a.txt''" taken_names] f
  have "split_name PATH_MAX PATH_MAX ''a.txt'' = stem_ext_spec ''a.txt''"
    and "\<forall>N. taken_names (''d'' @ ''/'' @ ''a.txt'') \<and> 1 \<le> N \<and> N < INT_MAX \<and>
             (\<forall>k. 1 \<le> k \<and> k < N \<longrightarrow> taken_names (candidate ''d'' (stem_ext_spec ''a.txt'') k)) \<and>
             \<not> taken_names (candidate ''d'' (stem_ext_spec ''a.txt'') N) \<and>
             length (candidate ''d'' (stem_ext_spec ''a.txt'') N) + 1 \<le> PATH_MAX \<longrightarrow>
           unique_path taken_names PATH_MAX ''d'' ''a.txt'' =
             Inr (candidate ''d'' (stem_ext_spec ''a.txt'') N)"
    by blast+
  from this(1) this(2) [rule_format, of 2] k n l t
  have "split_name PATH_MAX PATH_MAX ''a.txt'' = (''a'', ''.txt'')"
    and "unique_path taken_names PATH_MAX ''d'' ''a.txt'' = Inr (candidate ''d'' (''a'', ''.txt'') 2)"
    by (simp_all add: stem_ext_spec_a_txt INT_MAX_def)
  with t show ?thesis
    by (simp add: c fmt_d_examples)
qed

text \<open>
  The claim as stated fails where the joined path does not fit the buffer: with a
  destination directory of 4094 characters and nothing in it, the name \<^verbatim>\<open>f\<close> is not
  allocated; \<^verbatim>\<open>path_join\<close> aborts the process.
\<close>

definition no_entries :: "string \<Rightarrow> bool" where
  "no_entries p = False"

definition long_dir :: string where
  "long_dir = replicate 4094 CHR ''d''"

theorem unique_path_allocates_counterexample:
  "\<not> no_entries (long_dir @ ''/'' @ ''f'') \<and>
   unique_path no_entries PATH_MAX long_dir ''f'' \<noteq> Inr (long_dir @ ''/'' @ ''f'') \<and>
   unique_path no_entries PATH_MAX long_dir ''f'' = Inl (Fatal (Die ''Path too long''))"
  by (simp add: no_entries_def unique_path_def path_join_def long_dir_def PATH_MAX_def
      split: prod.splits)

subsection \<open>Job queue\<close>

record job_t =
  src_path :: string
  rel_path :: string
  depth :: int
  is_symlink :: bool

text \<open>
  The queue is a singly linked list of heap nodes. The heap is a function from addresses to
  nodes together with the set of addresses \<^verbatim>\<open>malloc\<close> has handed out and \<^verbatim>\<open>free\<close> has not
  taken back; a NULL pointer is \<open>None\<close>. \<open>malloc\<close> is a parameter: given the allocated set it
  returns a fresh address, or \<open>None\<close> for NULL. Each of \<^verbatim>\<open>push_job\<close>, \<^verbatim>\<open>pop_job\<close> and
  \<^verbatim>\<open>finish_jobs\<close> runs under the mutex \<^verbatim>\<open>q.mx\<close>, so a run of the program is a sequence of
  these operations.
\<close>

type_synonym addr = nat

record node_t =
  job :: job_t
  next_n :: "addr option"











text \<open>The linked list from a pointer: the addresses of its nodes, ending in NULL.\<close>

fun chain :: "(addr \<Rightarrow> node_t) \<Rightarrow> addr option \<Rightarrow> addr list \<Rightarrow> bool" where
  "chain h p [] \<longleftrightarrow> p = None"
| "chain h p (a # as) \<longleftrightarrow> p = Some a \<and> chain h (next_n (h a)) as"






lemma chain_unique: "chain h p as \<Longrightarrow> chain h p bs \<Longrightarrow> as = bs"
proof (induction as arbitrary: p bs)
  case Nil
  then show ?case by (cases bs) auto
next
  case (Cons a as)
  then show ?case by (cases bs) auto
qed
























subsection \<open>The operating system seen by the Relocation Executor\<close>

text \<open>
  The file system is a map from paths to inodes. A regular file has its bytes, its
  permission bits, its two timestamps and a flag telling whether its data has reached
  stable storage. Every system call first takes the next entry of a fault script, which
  may make it fail with an error number (or, for \<^verbatim>\<open>read\<close> and \<^verbatim>\<open>write\<close>, transfer fewer
  bytes than asked); with the script used up every call does its work. A failing call
  stores its error number in \<^verbatim>\<open>errno\<close>. The statistics counters and the lines written to
  standard output are part of the same state.
\<close>

datatype errno_t = EXDEV | EINTR | ENOENT | EEXIST | EISDIR | EINVAL | EBADF | ELOOP
  | EACCES | ENOSPC | EIO

record file_t =
  content :: string
  perm :: nat
  atime :: int
  mtime :: int
  synced :: bool

datatype inode = Reg file_t | Lnk string | Dir

datatype fault = No_fault | Fail errno_t | Short nat

datatype out_line =
    Skip_exists string
  | Would_move string string
  | Moved string string
  | Error_move string errno_t
  | Copied nat int
  | Newline

record world =
  files :: "string \<Rightarrow> inode option"
  faults :: "fault list"
  errno :: errno_t
  clock :: int
  stack_junk :: stat_t
  g_verbose :: int
  stdout_lines :: "out_line list"
  moved :: nat
  skipped :: nat
  failed :: nat
  bytes_copied :: nat

definition take_fault :: "world \<Rightarrow> fault \<times> world" where
  "take_fault w = (case faults w of [] \<Rightarrow> (No_fault, w) | f # fs \<Rightarrow> (f, w\<lparr> faults := fs \<rparr>))"

definition fails :: "errno_t \<Rightarrow> world \<Rightarrow> (errno_t + 'a) \<times> world" where
  "fails e w = (Inl e, w\<lparr> errno := e \<rparr>)"








text \<open>\<^verbatim>\<open>write(out, data, len)\<close> appends to the destination and returns the number of bytes
  it took, which may be less than \<open>len\<close>.\<close>

definition sys_write :: "string \<Rightarrow> string \<Rightarrow> world \<Rightarrow> (errno_t + nat) \<times> world" where
  "sys_write p data w =
     (case take_fault w of
        (Fail e, w1) \<Rightarrow> fails e w1
      | (ft, w1) \<Rightarrow>
          (let k = (case ft of Short k \<Rightarrow> min k (length data) | _ \<Rightarrow> length data)
           in case files w1 p of
                Some (Reg f) \<Rightarrow> (Inr k, w1\<lparr> files := (files w1)(p := Some (Reg
                    (f\<lparr> content := content f @ take k data, synced := False \<rparr>))) \<rparr>)
              | _ \<Rightarrow> fails EBADF w1))"






subsection \<open>Logging and statistics\<close>






subsection \<open>Move and copy\<close>














subsection \<open>What the system calls change\<close>

definition counters :: "world \<Rightarrow> nat \<times> nat \<times> nat" where
  "counters w = (moved w, skipped w, failed w)"

lemma take_fault_frame:
  "take_fault w = (ft, w1) \<Longrightarrow>
   files w1 = files w \<and> counters w1 = counters w \<and> bytes_copied w1 = bytes_copied w \<and>
   stdout_lines w1 = stdout_lines w \<and> g_verbose w1 = g_verbose w"
  by (auto simp: take_fault_def counters_def split: list.splits)



lemma sys_write_Inr_Reg:
  "sys_write p data w = (Inr k, w1) \<Longrightarrow> \<exists>g. files w p = Some (Reg g)"
  by (auto simp: sys_write_def take_fault_def fails_def Let_def
      split: list.splits fault.splits option.splits inode.splits)













subsection \<open>A copy that meets no fault\<close>





subsection \<open>Relocating a regular file\<close>









subsection \<open>The bytes-copied counter\<close>








subsection \<open>Worker\<close>














subsection \<open>Traversal\<close>

definition is_under :: "string \<Rightarrow> string \<Rightarrow> bool" where
  "is_under path prefix =
     (let n = length prefix
      in if take n path \<noteq> prefix then False
         else (length path = n \<or> path ! n = CHR ''/''))"

text \<open>
  The source tree as the walker and the pruner see it: what \<^verbatim>\<open>lstat\<close> says of an entry, and
  for a directory what \<^verbatim>\<open>readdir\<close> lists, in its order. \<open>Dir_unreadable\<close> is a directory
  \<^verbatim>\<open>opendir\<close> fails on, \<open>Gone\<close> an entry \<^verbatim>\<open>lstat\<close> fails on, \<open>Other\<close> a device, socket or
  pipe. \<^verbatim>\<open>realpath\<close> is the parameter \<open>rp\<close> (\<open>None\<close> for NULL), the global \<^verbatim>\<open>DST_CANON\<close> the
  parameter \<open>dc\<close>. Memory allocation is taken to succeed.
\<close>

datatype node =
    Reg_file stat_t
  | Sym_link stat_t
  | Dir_node "(string \<times> node) list"
  | Dir_unreadable
  | Other
  | Gone

datatype walk_log = Cannot_open string | Lstat_failed string | Realpath_failed string

record walk_state =
  pushed_jobs :: "job_t list"
  opened :: "string list"
  walk_logs :: "walk_log list"

definition log_walk :: "walk_log \<Rightarrow> walk_state \<Rightarrow> walk_state" where
  "log_walk l st = st\<lparr> walk_logs := walk_logs st @ [l] \<rparr>"

definition push_walk :: "job_t \<Rightarrow> walk_state \<Rightarrow> walk_state" where
  "push_walk j st = st\<lparr> pushed_jobs := pushed_jobs st @ [j] \<rparr>"

text \<open>The branch of the loop body for a symbolic link or a regular file, after \<^verbatim>\<open>lstat\<close>:
  the state after it (the loop then continues).\<close>

definition queue_file ::
  "(string \<Rightarrow> string \<Rightarrow> bool) \<Rightarrow> 'a options_t_scheme \<Rightarrow> int \<Rightarrow> string \<Rightarrow> string \<Rightarrow> string \<Rightarrow>
   stat_t \<Rightarrow> bool \<Rightarrow> walk_state \<Rightarrow> walk_state" where
  "queue_file fnm o' depth0 path rel name st lnk ws =
     (if max_depth o' \<ge> 0 \<and> depth0 > max_depth o' then ws
      else if depth0 \<ge> min_depth o'
      then (if \<not> file_passes_filters fnm o' rel st name then ws
            else push_walk \<lparr> src_path = path, rel_path = rel, depth = depth0, is_symlink = lnk \<rparr> ws)
      else ws)"

fun traverse_and_queue ::
    "(string \<Rightarrow> string \<Rightarrow> bool) \<Rightarrow> (string \<Rightarrow> string option) \<Rightarrow> string \<Rightarrow> 'a options_t_scheme \<Rightarrow>
     string \<Rightarrow> int \<Rightarrow> string \<Rightarrow> node \<Rightarrow> walk_state \<Rightarrow> (fatal \<times> walk_state) + walk_state"
  and traverse_entries ::
    "(string \<Rightarrow> string \<Rightarrow> bool) \<Rightarrow> (string \<Rightarrow> string option) \<Rightarrow> string \<Rightarrow> 'a options_t_scheme \<Rightarrow>
     string \<Rightarrow> int \<Rightarrow> string \<Rightarrow> (string \<times> node) list \<Rightarrow> walk_state \<Rightarrow>
     (fatal \<times> walk_state) + walk_state" where
  "traverse_and_queue fnm rp dc o' dir depth0 relbase (Dir_node ents) ws =
     traverse_entries fnm rp dc o' dir depth0 relbase ents (ws\<lparr> opened := opened ws @ [dir] \<rparr>)"
| "traverse_and_queue fnm rp dc o' dir depth0 relbase nd ws = Inr (log_walk (Cannot_open dir) ws)"
| "traverse_entries fnm rp dc o' dir depth0 relbase [] ws = Inr ws"
| "traverse_entries fnm rp dc o' dir depth0 relbase ((name, nd) # rest) ws =
     (if name = ''.'' \<or> name = ''..'' then traverse_entries fnm rp dc o' dir depth0 relbase rest ws
      else (case path_join PATH_MAX dir name of
              Inl e \<Rightarrow> Inl (e, ws)
            | Inr path \<Rightarrow>
      (case (if relbase \<noteq> [] then path_join PATH_MAX relbase name
             else str_copy_checked PATH_MAX name) of
              Inl e \<Rightarrow> Inl (e, ws)
            | Inr rel \<Rightarrow>
      (case nd of
         Gone \<Rightarrow> traverse_entries fnm rp dc o' dir depth0 relbase rest (log_walk (Lstat_failed path) ws)
       | Sym_link st \<Rightarrow>
           traverse_entries fnm rp dc o' dir depth0 relbase rest
             (if \<not> include_symlinks o' then ws
              else queue_file fnm o' depth0 path rel name st True ws)
       | Reg_file st \<Rightarrow>
           traverse_entries fnm rp dc o' dir depth0 relbase rest
             (queue_file fnm o' depth0 path rel name st False ws)
       | Other \<Rightarrow> traverse_entries fnm rp dc o' dir depth0 relbase rest ws
       | _ \<Rightarrow>
           (case rp path of
              None \<Rightarrow>
                traverse_entries fnm rp dc o' dir depth0 relbase rest
                  (log_walk (Realpath_failed path) ws)
            | Some subcanon \<Rightarrow>
                if is_under subcanon dc
                then traverse_entries fnm rp dc o' dir depth0 relbase rest ws
                else if max_depth o' \<ge> 0 \<and> depth0 \<ge> max_depth o'
                then traverse_entries fnm rp dc o' dir depth0 relbase rest ws
                else (case traverse_and_queue fnm rp dc o' path (depth0 + 1) rel nd ws of
                        Inl x \<Rightarrow> Inl x
                      | Inr ws' \<Rightarrow> traverse_entries fnm rp dc o' dir depth0 relbase rest ws'))))))"

subsection \<open>Pruning empty directories\<close>

definition path_is_empty_dir :: "node \<Rightarrow> bool" where
  "path_is_empty_dir nd =
     (case nd of
        Dir_node ents \<Rightarrow> \<not> list_ex (\<lambda>(name, _). name \<noteq> ''.'' \<and> name \<noteq> ''..'') ents
      | _ \<Rightarrow> False)"

text \<open>What the pruner does to the file system, in order: the directories it opens and the
  directories it removes. \<open>rmdir_ok p\<close> tells whether \<^verbatim>\<open>rmdir(p)\<close> succeeds on an empty
  directory (the source does not look at its result).\<close>

datatype prune_event = Descend string | Rmdir string

definition keep_entry ::
  "string \<times> node \<Rightarrow> (fatal \<times> prune_event list) + ((string \<times> node) list \<times> prune_event list) \<Rightarrow>
   (fatal \<times> prune_event list) + ((string \<times> node) list \<times> prune_event list)" where
  "keep_entry e res = (case res of Inl x \<Rightarrow> Inl x | Inr (r, t) \<Rightarrow> Inr (e # r, t))"

fun prune_empty ::
    "(string \<Rightarrow> string option) \<Rightarrow> string \<Rightarrow> (string \<Rightarrow> bool) \<Rightarrow> string \<Rightarrow> node \<Rightarrow> prune_event list \<Rightarrow>
     (fatal \<times> prune_event list) + (node \<times> prune_event list)"
  and prune_entries ::
    "(string \<Rightarrow> string option) \<Rightarrow> string \<Rightarrow> (string \<Rightarrow> bool) \<Rightarrow> string \<Rightarrow> (string \<times> node) list \<Rightarrow>
     prune_event list \<Rightarrow> (fatal \<times> prune_event list) + ((string \<times> node) list \<times> prune_event list)" where
  "prune_empty rp dc rmdir_ok dir (Dir_node ents) tr =
     (case prune_entries rp dc rmdir_ok dir ents (tr @ [Descend dir]) of
        Inl x \<Rightarrow> Inl x
      | Inr (ents', tr') \<Rightarrow> Inr (Dir_node ents', tr'))"
| "prune_empty rp dc rmdir_ok dir nd tr = Inr (nd, tr)"
| "prune_entries rp dc rmdir_ok dir [] tr = Inr ([], tr)"
| "prune_entries rp dc rmdir_ok dir ((name, nd) # rest) tr =
     (if name = ''.'' \<or> name = ''..''
      then keep_entry (name, nd) (prune_entries rp dc rmdir_ok dir rest tr)
      else (case path_join PATH_MAX dir name of
              Inl e \<Rightarrow> Inl (e, tr)
            | Inr path \<Rightarrow>
                if nd = Gone then keep_entry (name, nd) (prune_entries rp dc rmdir_ok dir rest tr)
                else if (case nd of Dir_node _ \<Rightarrow> True | Dir_unreadable \<Rightarrow> True | _ \<Rightarrow> False)
                then (case rp path of
                        None \<Rightarrow> keep_entry (name, nd) (prune_entries rp dc rmdir_ok dir rest tr)
                      | Some subcanon \<Rightarrow>
                          if is_under subcanon dc
                          then keep_entry (name, nd) (prune_entries rp dc rmdir_ok dir rest tr)
                          else (case prune_empty rp dc rmdir_ok path nd tr of
                                  Inl x \<Rightarrow> Inl x
                                | Inr (nd', tr') \<Rightarrow>
                                    if path_is_empty_dir nd' \<and> rmdir_ok path
                                    then prune_entries rp dc rmdir_ok dir rest (tr' @ [Rmdir path])
                                    else keep_entry (name, nd')
                                           (prune_entries rp dc rmdir_ok dir rest tr')))
                else keep_entry (name, nd) (prune_entries rp dc rmdir_ok dir rest tr)))"

text \<open>The containment test as the specification words it.\<close>

definition within_spec :: "string \<Rightarrow> string \<Rightarrow> bool" where
  "within_spec c dc \<longleftrightarrow> c = dc \<or> (\<exists>rest. c = dc @ CHR ''/'' # rest)"

lemma is_under_iff: "is_under c dc \<longleftrightarrow> within_spec c dc"
proof
  assume u: "is_under c dc"
  then have t: "take (length dc) c = dc" and e: "length c = length dc \<or> c ! length dc = CHR ''/''"
    by (simp_all add: is_under_def Let_def split: if_splits)
  have c: "c = dc @ drop (length dc) c"
    using t by (metis append_take_drop_id)
  show "within_spec c dc"
  proof (cases "drop (length dc) c")
    case Nil
    with c show ?thesis by (simp add: within_spec_def)
  next
    case (Cons x xs)
    then have l: "length dc < length c" by (cases "length dc < length c") auto
    with Cons have "c ! length dc = x"
      by (metis Cons_nth_drop_Suc list.inject)
    with e l have "x = CHR ''/''" by simp
    with c Cons show ?thesis
      by (auto simp: within_spec_def)
  qed
next
  assume "within_spec c dc"
  then show "is_under c dc"
    by (auto simp: within_spec_def is_under_def Let_def nth_append)
qed

subsection \<open>Invariants of the walk and of the pruning\<close>

definition walk_final :: "(fatal \<times> walk_state) + walk_state \<Rightarrow> walk_state" where
  "walk_final r = (case r of Inl (e, s) \<Rightarrow> s | Inr s \<Rightarrow> s)"

text \<open>A path whose real path resolves and does not lie within the destination root.\<close>

definition outside :: "(string \<Rightarrow> string option) \<Rightarrow> string \<Rightarrow> string \<Rightarrow> bool" where
  "outside rp dc p \<longleftrightarrow> (case rp p of None \<Rightarrow> False | Some c \<Rightarrow> \<not> within_spec c dc)"

definition walk_inv ::
  "(string \<Rightarrow> string option) \<Rightarrow> string \<Rightarrow> 'a options_t_scheme \<Rightarrow> string \<Rightarrow> walk_state \<Rightarrow> bool" where
  "walk_inv rp dc o' root ws \<longleftrightarrow>
     (\<forall>p \<in> set (opened ws). p = root \<or> outside rp dc p) \<and>
     (\<forall>j \<in> set (pushed_jobs ws). min_depth o' \<le> depth j \<and>
        (max_depth o' \<ge> 0 \<longrightarrow> depth j \<le> max_depth o'))"

lemma walk_inv_log: "walk_inv rp dc o' root ws \<Longrightarrow> walk_inv rp dc o' root (log_walk l ws)"
  by (simp add: walk_inv_def log_walk_def)

lemma walk_inv_queue_file:
  "walk_inv rp dc o' root ws \<Longrightarrow> walk_inv rp dc o' root (queue_file fnm o' d path rel name st lnk ws)"
  by (auto simp: walk_inv_def queue_file_def push_walk_def)

lemma walk_inv_open:
  "walk_inv rp dc o' root ws \<Longrightarrow> dir = root \<or> outside rp dc dir \<Longrightarrow>
   walk_inv rp dc o' root (ws\<lparr> opened := opened ws @ [dir] \<rparr>)"
  by (auto simp: walk_inv_def)

lemma walk_final_simps:
  "walk_final (Inl (e, s)) = s" "walk_final (Inr s) = s"
  by (simp_all add: walk_final_def)

lemma walk_inv_traverse:
  "walk_inv rp dc o' root ws \<Longrightarrow> dir = root \<or> outside rp dc dir \<Longrightarrow>
   walk_inv rp dc o' root (walk_final (traverse_and_queue fnm rp dc o' dir depth0 relbase nd ws))"
  "walk_inv rp dc o' root ws \<Longrightarrow>
   walk_inv rp dc o' root (walk_final (traverse_entries fnm rp dc o' dir depth0 relbase ents ws))"
proof (induction fnm rp dc o' dir depth0 relbase nd ws and fnm rp dc o' dir depth0 relbase ents ws
    rule: traverse_and_queue_traverse_entries.induct)
  case (1 fnm rp dc o' dir depth0 relbase ents ws)
  then show ?case by (simp add: walk_inv_open)
next
  case (4 fnm rp dc o' dir depth0 relbase name nd rest ws)
  show ?case
  proof (cases "name = ''.'' \<or> name = ''..''")
    case True
    with 4 show ?thesis by simp
  next
    case False
    show ?thesis
    proof (cases "path_join PATH_MAX dir name")
      case (Inl e)
      with False "4.prems" show ?thesis by (simp add: walk_final_simps)
    next
      case path: (Inr path)
      show ?thesis
      proof (cases "if relbase \<noteq> [] then path_join PATH_MAX relbase name
             else str_copy_checked PATH_MAX name")
        case (Inl e)
        with False path "4.prems" show ?thesis by (simp add: walk_final_simps)
      next
        case rel: (Inr rel)
        note ih = "4.IH"(2-) [OF False path rel]
        have dirs: ?thesis if d: "nd = Dir_node x \<or> nd = Dir_unreadable" for x
        proof (cases "rp path")
          case None
          with False path rel d ih "4.prems" show ?thesis
            by (auto simp: walk_inv_log)
        next
          case (Some sc)
          show ?thesis
          proof (cases "is_under sc dc \<or> (0 \<le> max_depth o' \<and> max_depth o' \<le> depth0)")
            case True
            with False path rel d ih Some "4.prems" show ?thesis
              by (cases "is_under sc dc") auto
          next
            case nrec: False
            then have out: "outside rp dc path"
              using Some by (simp add: outside_def is_under_iff)
            have sub: "walk_inv rp dc o' root
                (walk_final (traverse_and_queue fnm rp dc o' path (depth0 + 1) rel nd ws))"
              using d ih Some nrec "4.prems" out by auto
            show ?thesis
            proof (cases "traverse_and_queue fnm rp dc o' path (depth0 + 1) rel nd ws")
              case (Inl x)
              with False path rel d Some nrec sub show ?thesis
                by (cases x) (auto simp: walk_final_simps)
            next
              case (Inr ws')
              with sub have "walk_inv rp dc o' root ws'" by (simp add: walk_final_simps)
              with False path rel d Some nrec Inr ih show ?thesis
                by auto
            qed
          qed
        qed
        show ?thesis
        proof (cases nd)
          case (Reg_file st)
          with False path rel ih "4.prems" show ?thesis
            by (simp add: walk_inv_queue_file)
        next
          case (Sym_link st)
          with False path rel ih "4.prems" show ?thesis
            by (simp add: walk_inv_queue_file)
        next
          case (Dir_node x)
          then show ?thesis by (rule dirs [OF disjI1])
        next
          case Dir_unreadable
          then show ?thesis by (rule dirs [OF disjI2])
        next
          case Other
          with False path rel ih "4.prems" show ?thesis by simp
        next
          case Gone
          with False path rel ih "4.prems" show ?thesis
            by (simp add: walk_inv_log)
        qed
      qed
    qed
  qed
qed (simp_all add: walk_final_simps walk_inv_log)

definition prune_final ::
  "(fatal \<times> prune_event list) + ('a \<times> prune_event list) \<Rightarrow> prune_event list" where
  "prune_final r = (case r of Inl (e, t) \<Rightarrow> t | Inr (x, t) \<Rightarrow> t)"

definition prune_inv ::
  "(string \<Rightarrow> string option) \<Rightarrow> string \<Rightarrow> string \<Rightarrow> prune_event list \<Rightarrow> bool" where
  "prune_inv rp dc root tr \<longleftrightarrow>
     (\<forall>e \<in> set tr. case e of Descend p \<Rightarrow> p = root \<or> outside rp dc p
                          | Rmdir p \<Rightarrow> outside rp dc p)"

lemma prune_final_simps:
  "prune_final (Inl (e, t)) = t" "prune_final (Inr (x, t)) = t"
  "prune_final (keep_entry en r) = prune_final r"
  by (simp_all add: prune_final_def keep_entry_def split: sum.splits prod.splits)

lemma prune_inv_snoc:
  "prune_inv rp dc root tr \<Longrightarrow>
   (case e of Descend p \<Rightarrow> p = root \<or> outside rp dc p | Rmdir p \<Rightarrow> outside rp dc p) \<Longrightarrow>
   prune_inv rp dc root (tr @ [e])"
  by (simp add: prune_inv_def)

lemma prune_inv_prune:
  "prune_inv rp dc root tr \<Longrightarrow> dir = root \<or> outside rp dc dir \<Longrightarrow>
   prune_inv rp dc root (prune_final (prune_empty rp dc rmdir_ok dir nd tr))"
  "prune_inv rp dc root tr \<Longrightarrow>
   prune_inv rp dc root (prune_final (prune_entries rp dc rmdir_ok dir ents tr))"
proof (induction rp dc rmdir_ok dir nd tr and rp dc rmdir_ok dir ents tr
    rule: prune_empty_prune_entries.induct)
  case (1 rp dc rmdir_ok dir ents tr)
  then have "prune_inv rp dc root (prune_final (prune_entries rp dc rmdir_ok dir ents (tr @ [Descend dir])))"
    by (simp add: prune_inv_snoc)
  then show ?case
    by (simp add: prune_final_def split: sum.splits prod.splits)
next
  case (4 rp dc rmdir_ok dir name nd rest tr)
  show ?case
  proof (cases "name = ''.'' \<or> name = ''..''")
    case True
    with 4 show ?thesis by (simp add: prune_final_simps)
  next
    case False
    show ?thesis
    proof (cases "path_join PATH_MAX dir name")
      case (Inl e)
      with False "4.prems" show ?thesis by (simp add: prune_final_simps)
    next
      case path: (Inr path)
      note ih = "4.IH"(2-) [OF False path]
      let ?isdir = "case nd of Dir_node _ \<Rightarrow> True | Dir_unreadable \<Rightarrow> True | _ \<Rightarrow> False"
      show ?thesis
      proof (cases "nd = Gone \<or> \<not> ?isdir")
        case True
        with False path ih "4.prems" show ?thesis
          by (auto simp: prune_final_simps)
      next
        case isdir: False
        show ?thesis
        proof (cases "rp path")
          case None
          with False path isdir ih "4.prems" show ?thesis
            by (auto simp: prune_final_simps)
        next
          case (Some sc)
          show ?thesis
          proof (cases "is_under sc dc")
            case True
            with False path isdir Some ih "4.prems" show ?thesis
              by (auto simp: prune_final_simps)
          next
            case nu: False
            then have out: "outside rp dc path"
              using Some by (simp add: outside_def is_under_iff)
            have sub: "prune_inv rp dc root (prune_final (prune_empty rp dc rmdir_ok path nd tr))"
              using isdir ih Some nu "4.prems" out by auto
            show ?thesis
            proof (cases "prune_empty rp dc rmdir_ok path nd tr")
              case (Inl x)
              with False path isdir Some nu sub show ?thesis
                by (cases x) (auto simp: prune_final_simps)
            next
              case (Inr y)
              obtain nd' tr' where y: "y = (nd', tr')" by (cases y)
              with Inr sub have t': "prune_inv rp dc root tr'"
                by (simp add: prune_final_simps)
              show ?thesis
              proof (cases "path_is_empty_dir nd' \<and> rmdir_ok path")
                case True
                from t' out have "prune_inv rp dc root (tr' @ [Rmdir path])"
                  by (simp add: prune_inv_snoc)
                with False path isdir Some nu Inr y True ih show ?thesis
                  by auto
              next
                case keep: False
                with False path isdir Some nu Inr y t' ih show ?thesis
                  by (auto simp: prune_final_simps)
              qed
            qed
          qed
        qed
      qed
    qed
  qed
qed (simp_all add: prune_final_simps)

definition empty_walk :: walk_state where
  "empty_walk = \<lparr> pushed_jobs = [], opened = [], walk_logs = [] \<rparr>"

text \<open>
  Claim C2. Let a directory entry be met by the walker or by the pruner, neither \<^verbatim>\<open>.\<close> nor
  \<^verbatim>\<open>..\<close>, whose real path is the destination root or has it as a proper prefix followed by a
  separator. Then the walker goes on with the next entry in the state it was in, and the
  pruner goes on with the next entry and keeps this one as it is: neither steps into it,
  and the pruner does not remove it. Over a whole walk from the source root every directory
  opened but the root has a real path outside the destination, and so has every directory
  the pruner opens (but the root) or removes.
\<close>

theorem destination_subtree_skipped:
  "(rp path = Some c \<and> within_spec c dc \<and> (nd = Dir_node ents \<or> nd = Dir_unreadable) \<and>
    name \<noteq> ''.'' \<and> name \<noteq> ''..'' \<and> path_join PATH_MAX dir name = Inr path \<longrightarrow>
      traverse_entries fnm rp dc o' dir depth0 relbase ((name, nd) # rest) ws =
        (case (if relbase \<noteq> [] then path_join PATH_MAX relbase name
               else str_copy_checked PATH_MAX name) of
           Inl e \<Rightarrow> Inl (e, ws)
         | Inr rel \<Rightarrow> traverse_entries fnm rp dc o' dir depth0 relbase rest ws) \<and>
      prune_entries rp dc rmdir_ok dir ((name, nd) # rest) tr =
        keep_entry (name, nd) (prune_entries rp dc rmdir_ok dir rest tr)) \<and>
   (\<forall>p \<in> set (opened (walk_final (traverse_and_queue fnm rp dc o' root 0 [] tree empty_walk))).
      p = root \<or> (\<exists>c'. rp p = Some c' \<and> \<not> within_spec c' dc)) \<and>
   (\<forall>e \<in> set (prune_final (prune_empty rp dc rmdir_ok root tree [])).
      case e of
        Descend p \<Rightarrow> p = root \<or> (\<exists>c'. rp p = Some c' \<and> \<not> within_spec c' dc)
      | Rmdir p \<Rightarrow> (\<exists>c'. rp p = Some c' \<and> \<not> within_spec c' dc))"
proof (intro conjI impI)
  assume a: "rp path = Some c \<and> within_spec c dc \<and> (nd = Dir_node ents \<or> nd = Dir_unreadable) \<and>
    name \<noteq> ''.'' \<and> name \<noteq> ''..'' \<and> path_join PATH_MAX dir name = Inr path"
  then have u: "is_under c dc" by (simp add: is_under_iff)
  from a u show "traverse_entries fnm rp dc o' dir depth0 relbase ((name, nd) # rest) ws =
        (case (if relbase \<noteq> [] then path_join PATH_MAX relbase name
               else str_copy_checked PATH_MAX name) of
           Inl e \<Rightarrow> Inl (e, ws)
         | Inr rel \<Rightarrow> traverse_entries fnm rp dc o' dir depth0 relbase rest ws)"
    by (auto split: sum.splits)
  from a u show "prune_entries rp dc rmdir_ok dir ((name, nd) # rest) tr =
        keep_entry (name, nd) (prune_entries rp dc rmdir_ok dir rest tr)"
    by auto
next
  have "walk_inv rp dc o' root empty_walk"
    by (simp add: walk_inv_def empty_walk_def)
  then have "walk_inv rp dc o' root
      (walk_final (traverse_and_queue fnm rp dc o' root 0 [] tree empty_walk))"
    by (rule walk_inv_traverse) simp
  then show "\<forall>p \<in> set (opened (walk_final (traverse_and_queue fnm rp dc o' root 0 [] tree empty_walk))).
      p = root \<or> (\<exists>c'. rp p = Some c' \<and> \<not> within_spec c' dc)"
    by (auto simp: walk_inv_def outside_def split: option.splits)
next
  have "prune_inv rp dc root []"
    by (simp add: prune_inv_def)
  then have "prune_inv rp dc root (prune_final (prune_empty rp dc rmdir_ok root tree []))"
    by (rule prune_inv_prune) simp
  then have inv: "\<And>e. e \<in> set (prune_final (prune_empty rp dc rmdir_ok root tree [])) \<Longrightarrow>
      (case e of Descend p \<Rightarrow> p = root \<or> outside rp dc p | Rmdir p \<Rightarrow> outside rp dc p)"
    by (simp add: prune_inv_def)
  show "\<forall>e \<in> set (prune_final (prune_empty rp dc rmdir_ok root tree [])).
      case e of
        Descend p \<Rightarrow> p = root \<or> (\<exists>c'. rp p = Some c' \<and> \<not> within_spec c' dc)
      | Rmdir p \<Rightarrow> (\<exists>c'. rp p = Some c' \<and> \<not> within_spec c' dc)"
  proof
    fix e
    assume "e \<in> set (prune_final (prune_empty rp dc rmdir_ok root tree []))"
    from inv [OF this] show "case e of
        Descend p \<Rightarrow> p = root \<or> (\<exists>c'. rp p = Some c' \<and> \<not> within_spec c' dc)
      | Rmdir p \<Rightarrow> (\<exists>c'. rp p = Some c' \<and> \<not> within_spec c' dc)"
      by (cases e) (auto simp: outside_def split: option.splits)
  qed
qed

text \<open>The defaults of \<^verbatim>\<open>parse_options\<close>, and a source tree \<^verbatim>\<open>/s\<close> that holds its own
  destination \<^verbatim>\<open>/s/out\<close> next to \<^verbatim>\<open>/s/a/f.txt\<close>; every path is its own real path.\<close>

definition default_options :: "string \<Rightarrow> string \<Rightarrow> options_t" where
  "default_options s d =
     \<lparr> src = s, dst = d, threads = 1, mode = MODE_RENAME, min_depth = 1, max_depth = - 1,
       dry_run = False, progress = False, preserve_times = True, include_symlinks = False,
       prune_empty_dirs = False, min_size = 0, has_min_size = False, max_size = 0,
       has_max_size = False, newer_than = 0, has_newer = False, older_than = 0,
       has_older = False, includes_v = [], excludes = [], allow_ext = [], deny_ext = [] \<rparr>"

definition out_dir :: node where
  "out_dir = Dir_node [(''old.txt'', Reg_file example_stat)]"

definition nested_tree :: node where
  "nested_tree = Dir_node [(''out'', out_dir), (''a'', Dir_node [(''f.txt'', Reg_file example_stat)])]"

definition emptied_tree :: node where
  "emptied_tree = Dir_node [(''out'', out_dir), (''a'', Dir_node [])]"

lemma default_passes: "file_passes_filters fnm (default_options s d) rel st name"
  by (simp add: file_passes_filters_def default_options_def match_any_exclude_def)

lemma is_under_examples:
  "is_under ''/s/out'' ''/s/out''" "\<not> is_under ''/s/a'' ''/s/out''"
  by (simp_all add: is_under_def)

lemma nested_walk:
  "traverse_and_queue fnm Some ''/s/out'' (default_options ''/s'' ''/s/out'') ''/s'' 0 [] nested_tree
     empty_walk =
   Inr \<lparr> pushed_jobs = [\<lparr> src_path = ''/s/a/f.txt'', rel_path = ''a/f.txt'', depth = 1,
            is_symlink = False \<rparr>],
         opened = [''/s'', ''/s/a''], walk_logs = [] \<rparr>"
proof -
  have o: "min_depth (default_options ''/s'' ''/s/out'') = 1"
    "max_depth (default_options ''/s'' ''/s/out'') = - 1"
    by (simp_all add: default_options_def)
  show ?thesis
    by (simp add: nested_tree_def out_dir_def empty_walk_def path_join_def str_copy_checked_def
        PATH_MAX_def is_under_examples queue_file_def push_walk_def default_passes o)
qed

lemma nested_prune:
  "prune_empty Some ''/s/out'' (\<lambda>p. True) ''/s'' emptied_tree [] =
   Inr (Dir_node [(''out'', out_dir)], [Descend ''/s'', Descend ''/s/a'', Rmdir ''/s/a''])"
  by (simp add: emptied_tree_def out_dir_def path_join_def PATH_MAX_def is_under_examples
      keep_entry_def path_is_empty_dir_def)

theorem destination_subtree_skipped_witness:
  "Some ''/s/out'' = Some ''/s/out'' \<and> within_spec ''/s/out'' ''/s/out'' \<and>
   path_join PATH_MAX ''/s'' ''out'' = Inr ''/s/out'' \<and>
   traverse_and_queue (\<lambda>g r. g = r) Some ''/s/out'' (default_options ''/s'' ''/s/out'') ''/s'' 0 []
     nested_tree empty_walk =
   Inr \<lparr> pushed_jobs = [\<lparr> src_path = ''/s/a/f.txt'', rel_path = ''a/f.txt'', depth = 1,
            is_symlink = False \<rparr>],
         opened = [''/s'', ''/s/a''], walk_logs = [] \<rparr> \<and>
   prune_empty Some ''/s/out'' (\<lambda>p. True) ''/s'' emptied_tree [] =
   Inr (Dir_node [(''out'', out_dir)], [Descend ''/s'', Descend ''/s/a'', Rmdir ''/s/a'']) \<and>
   prune_entries Some ''/s/out'' (\<lambda>p. True) ''/s'' [(''out'', out_dir)] [] =
     Inr ([(''out'', out_dir)], [])"
proof -
  have w: "within_spec ''/s/out'' ''/s/out''" by (simp add: within_spec_def)
  have p: "path_join PATH_MAX ''/s'' ''out'' = Inr ''/s/out''"
    by (simp add: path_join_def PATH_MAX_def)
  have prem: "Some ''/s/out'' = Some ''/s/out'' \<and> within_spec ''/s/out'' ''/s/out'' \<and>
      (out_dir = Dir_node [(''old.txt'', Reg_file example_stat)] \<or> out_dir = Dir_unreadable) \<and>
      ''out'' \<noteq> ''.'' \<and> ''out'' \<noteq> ''..'' \<and> path_join PATH_MAX ''/s'' ''out'' = Inr ''/s/out''"
    using w p by (simp add: out_dir_def)
  note t = destination_subtree_skipped [where rp = Some and path = "''/s/out''" and c = "''/s/out''"
      and dc = "''/s/out''" and nd = out_dir and ents = "[(''old.txt'', Reg_file example_stat)]"
      and name = "''out''" and dir = "''/s''" and rest = "[]" and tr = "[]"
      and rmdir_ok = "\<lambda>p. True"]
  from t [THEN conjunct1, THEN mp, OF prem, THEN conjunct2]
  have "prune_entries Some ''/s/out'' (\<lambda>p. True) ''/s'' [(''out'', out_dir)] [] =
      keep_entry (''out'', out_dir) (prune_entries Some ''/s/out'' (\<lambda>p. True) ''/s'' [] [])" .
  then have "prune_entries Some ''/s/out'' (\<lambda>p. True) ''/s'' [(''out'', out_dir)] [] =
      Inr ([(''out'', out_dir)], [])"
    by (simp add: keep_entry_def)
  with w p nested_walk nested_prune show ?thesis by simp
qed

subsection \<open>The minimum depth\<close>













subsection \<open>The failed counter\<close>

lemma counters_fails: "counters (snd (fails e w :: (errno_t + 'a) \<times> world)) = counters w"
  by (simp add: fails_def counters_def)

lemma counters_take_fault: "counters (snd (take_fault w)) = counters w"
  by (simp add: take_fault_def counters_def split: list.splits)









subsection \<open>main\<close>



























end
